theory Spec2Isabelle
  imports Complex_Main "HOL-Library.Sublist"
begin

section \<open>JavaScript strings\<close>

text \<open>
  The query phrase, the tokens and the item titles are JavaScript strings. They are
  modelled as \<open>string\<close>, one \<open>char\<close> per code unit, restricted to the Latin-1
  range that a \<open>char\<close> covers. The built-in string methods the handler calls
  (\<open>split(' ')\<close>, \<open>join(' ')\<close>, \<open>trim()\<close>, \<open>toLowerCase()\<close>) are written out on
  that range.
\<close>

text \<open>\<open>String.prototype.split(' ')\<close>: cut at every single space; never an empty array.\<close>

fun split_sp :: "string \<Rightarrow> string list" where
  "split_sp [] = [[]]"
| "split_sp (c # cs) =
     (if c = CHR '' '' then [] # split_sp cs
      else (case split_sp cs of
              [] \<Rightarrow> [[c]]
            | w # ws \<Rightarrow> (c # w) # ws))"

text \<open>\<open>Array.prototype.join(' ')\<close>.\<close>

fun join_sp :: "string list \<Rightarrow> string" where
  "join_sp [] = []"
| "join_sp [w] = w"
| "join_sp (w # ws) = w @ CHR '' '' # join_sp ws"

text \<open>
  The white space and line terminators that \<open>trim()\<close> strips, as far as they lie in
  Latin-1: TAB, LF, VT, FF, CR, SPACE and NBSP.
\<close>

definition js_whitespace :: "char \<Rightarrow> bool" where
  "js_whitespace c = ((of_char c :: nat) \<in> set [9, 10, 11, 12, 13, 32, 160])"

definition trim :: "string \<Rightarrow> string" where
  "trim s = rev (dropWhile js_whitespace (rev (dropWhile js_whitespace s)))"

text \<open>
  \<open>toLowerCase()\<close> on Latin-1: \<open>A\<close>..\<open>Z\<close> and the accented capitals
  (0xC0..0xDE without the multiplication sign 0xD7) move up by 32.
\<close>

definition lower_char :: "char \<Rightarrow> char" where
  "lower_char c =
     (let n = (of_char c :: nat)
      in if (65 \<le> n \<and> n \<le> 90) \<or> (192 \<le> n \<and> n \<le> 222 \<and> n \<noteq> 215)
         then char_of (n + 32) else c)"

definition toLowerCase :: "string \<Rightarrow> string" where
  "toLowerCase s = map lower_char s"

section \<open>Plugin descriptors and result items\<close>

text \<open>
  \<open>plugins { path, name, isCore, schema, action, keyword }\<close>. The handler reads
  \<open>isCore\<close> and \<open>keyword\<close> only; \<open>keyword\<close> may be absent.
\<close>

record plugin =
  path :: string
  name :: string
  isCore :: bool
  keyword :: "string option"

text \<open>
  A result item. \<open>title\<close> is \<open>None\<close> when the property is missing or \<open>null\<close>;
  \<open>plugin\<close> is the descriptor of the plugin the item came from.
\<close>

record item =
  title :: "string option"
  arg :: string
  plugin :: plugin

text \<open>
  The truthiness test \<open>plugin.keyword\<close>: an absent keyword and the empty string are
  both falsy.
\<close>

definition has_keyword :: "plugin \<Rightarrow> bool" where
  "has_keyword p = (case keyword p of None \<Rightarrow> False | Some k \<Rightarrow> k \<noteq> [])"

section \<open>Routing: which provider calls \<open>handleQueryCommand\<close> issues\<close>

datatype call = QueryHelper plugin string | QueryResults plugin "string list"

datatype display = Helper | Results

text \<open>\<open>plugins.filter(p => !p.keyword || keyword === p.keyword)\<close>\<close>

definition keyword_ok :: "string \<Rightarrow> plugin \<Rightarrow> bool" where
  "keyword_ok kw p = (\<not> has_keyword p \<or> keyword p = Some kw)"

definition matchedPlugins :: "plugin list \<Rightarrow> string \<Rightarrow> plugin list" where
  "matchedPlugins plugins kw = filter (keyword_ok kw) plugins"

text \<open>The \<open>display\<close> variable of the \<open>forEach\<close> over the matched plugins.\<close>

definition display_of :: "string \<Rightarrow> string \<Rightarrow> plugin \<Rightarrow> display" where
  "display_of kw queryString p =
     (if isCore p \<and> keyword_ok kw p then Results
      else if has_keyword p \<and> length queryString = 0 then Helper
      else Results)"

text \<open>The \<open>switch (display)\<close>: the provider call pushed for one matched plugin.\<close>

definition matched_call :: "string list \<Rightarrow> string \<Rightarrow> string list \<Rightarrow> string \<Rightarrow> plugin \<Rightarrow> call" where
  "matched_call fractions kw args queryString p =
     (case display_of kw queryString p of
        Helper \<Rightarrow> QueryHelper p kw
      | Results \<Rightarrow>
          (if \<not> has_keyword p then QueryResults p fractions
           else QueryResults p args))"

text \<open>
  Both branches of \<open>if (matchedPlugins.length)\<close>, for the tokens
  \<open>[keyword, ...args] = fractions\<close>.
\<close>

definition route_tokens :: "plugin list \<Rightarrow> string \<Rightarrow> string list \<Rightarrow> call list" where
  "route_tokens plugins kw args =
     (let fractions = kw # args;
          queryString = trim (join_sp args);
          matched = matchedPlugins plugins kw
      in if length matched \<noteq> 0
         then map (matched_call fractions kw args queryString) matched
         else map (\<lambda>p. QueryResults p fractions)
                (filter (\<lambda>p. isCore p \<and> keyword_ok kw p) plugins))"

text \<open>
  The provider calls for a phrase, in the order they are pushed. \<open>split\<close> never yields
  an empty array, so the first case is never taken (lemma \<open>split_sp_not_Nil\<close>).
\<close>

definition route :: "plugin list \<Rightarrow> string \<Rightarrow> call list" where
  "route plugins queryPhrase =
     (case split_sp queryPhrase of
        [] \<Rightarrow> []
      | kw # args \<Rightarrow> route_tokens plugins kw args)"

section \<open>Provider calls and their join\<close>

text \<open>
  \<open>queryResults\<close> and \<open>queryHelper\<close> come from \<open>./plugins\<close>. A call either throws
  synchronously or returns a promise, which is fulfilled with an array of items or
  rejected. (A promise that never settles keeps the join from settling; for what is
  sent it is like a rejected one.)
\<close>

datatype 'a promise = Fulfilled 'a | Rejected

datatype 'a outcome = Returns "'a promise" | Throws

type_synonym providers = "call \<Rightarrow> item list outcome"

text \<open>
  The two \<open>forEach\<close> loops push one promise per call. The pair returned is the calls
  really made and the \<open>results\<close> array; \<open>None\<close> when a call threw, which ends the
  handler before \<open>Promise.all\<close> is reached.
\<close>

fun issue :: "providers \<Rightarrow> call list \<Rightarrow> call list \<times> item list promise list option" where
  "issue prov [] = ([], Some [])"
| "issue prov (c # cs) =
     (case prov c of
        Throws \<Rightarrow> ([c], None)
      | Returns pr \<Rightarrow>
          (case issue prov cs of
             (made, None) \<Rightarrow> (c # made, None)
           | (made, Some ps) \<Rightarrow> (c # made, Some (pr # ps))))"

text \<open>\<open>Promise.all\<close>: fulfilled with all the values in order, rejected if one is.\<close>

fun promise_all :: "'a promise list \<Rightarrow> 'a list promise" where
  "promise_all [] = Fulfilled []"
| "promise_all (Rejected # ps) = Rejected"
| "promise_all (Fulfilled x # ps) =
     (case promise_all ps of
        Rejected \<Rightarrow> Rejected
      | Fulfilled xs \<Rightarrow> Fulfilled (x # xs))"

section \<open>Ranking: the \<open>then\<close> callback\<close>

datatype error = TypeError

text \<open>
  \<open>resultSet.reduce((prev, next) => prev.concat(next))\<close> has no initial value: on an
  empty array it raises a TypeError, otherwise it folds from the first element.
\<close>

definition reduce_concat :: "'a list list \<Rightarrow> error + 'a list" where
  "reduce_concat resultSet =
     (case resultSet of
        [] \<Rightarrow> Inl TypeError
      | first # rest \<Rightarrow> Inr (foldl (\<lambda>prev next. prev @ next) first rest))"

text \<open>
  The scorer \<open>String.prototype.score\<close> is installed by the package \<open>string_score\<close>
  and is a parameter here. Its results are compared with \<open>===\<close>, \<open><\<close> and \<open>>\<close>
  only, which on numbers other than NaN is the order of the reals.
\<close>

type_synonym scorer = "string \<Rightarrow> string \<Rightarrow> real"

text \<open>
  \<open>i.title.toLowerCase().score(keyword)\<close>: a TypeError when the title is missing.
\<close>

definition item_score :: "scorer \<Rightarrow> string \<Rightarrow> item \<Rightarrow> error + real" where
  "item_score score kw i =
     (case title i of
        None \<Rightarrow> Inl TypeError
      | Some t \<Rightarrow> Inr (score (toLowerCase t) kw))"

text \<open>The comparator handed to \<open>sort\<close>.\<close>

definition compare_items :: "scorer \<Rightarrow> string \<Rightarrow> item \<Rightarrow> item \<Rightarrow> error + int" where
  "compare_items score kw a b =
     (case item_score score kw a of
        Inl e \<Rightarrow> Inl e
      | Inr scoreA \<Rightarrow>
          (case item_score score kw b of
             Inl e \<Rightarrow> Inl e
           | Inr scoreB \<Rightarrow>
               Inr (if scoreA = scoreB then 0 else if scoreA < scoreB then 1 else - 1)))"

text \<open>
  \<open>Array.prototype.sort(comparefn)\<close>: the language specifies a stable sort
  (ECMAScript 2019 and later), and an exception of the comparator ends it. It is
  written as a stable insertion sort: an element moves behind those it compares
  greater than, and stays in front of those it compares equal to.
\<close>

fun insert_by :: "('a \<Rightarrow> 'a \<Rightarrow> error + int) \<Rightarrow> 'a \<Rightarrow> 'a list \<Rightarrow> error + 'a list" where
  "insert_by cmp x [] = Inr [x]"
| "insert_by cmp x (y # ys) =
     (case cmp x y of
        Inl e \<Rightarrow> Inl e
      | Inr c \<Rightarrow>
          (if c \<le> 0 then Inr (x # y # ys)
           else (case insert_by cmp x ys of
                   Inl e \<Rightarrow> Inl e
                 | Inr zs \<Rightarrow> Inr (y # zs))))"

fun js_sort :: "('a \<Rightarrow> 'a \<Rightarrow> error + int) \<Rightarrow> 'a list \<Rightarrow> error + 'a list" where
  "js_sort cmp [] = Inr []"
| "js_sort cmp (x # xs) =
     (case js_sort cmp xs of
        Inl e \<Rightarrow> Inl e
      | Inr ys \<Rightarrow> insert_by cmp x ys)"

text \<open>\<open>Array.prototype.filter\<close> with a callback that may throw.\<close>

fun js_filter :: "('a \<Rightarrow> error + bool) \<Rightarrow> 'a list \<Rightarrow> error + 'a list" where
  "js_filter pred [] = Inr []"
| "js_filter pred (x # xs) =
     (case pred x of
        Inl e \<Rightarrow> Inl e
      | Inr b \<Rightarrow>
          (case js_filter pred xs of
             Inl e \<Rightarrow> Inl e
           | Inr ys \<Rightarrow> Inr (if b then x # ys else ys)))"

text \<open>
  The filter callback: \<open>Boolean(score) ? score > 0.25 : true\<close>. A score of zero is
  falsy.
\<close>

definition keep_item :: "scorer \<Rightarrow> string \<Rightarrow> item \<Rightarrow> error + bool" where
  "keep_item score kw i =
     (case item_score score kw i of
        Inl e \<Rightarrow> Inl e
      | Inr s \<Rightarrow> Inr (if s \<noteq> 0 then s > 0.25 else True))"

text \<open>
  \<open>reduce\<close>, \<open>sort\<close>, \<open>filter\<close> and \<open>slice(0, MAX_RESULTS)\<close> in a row. \<open>MAX_RESULTS\<close>
  is imported from \<open>../constants\<close> and is a parameter.
\<close>

definition rank_items :: "nat \<Rightarrow> scorer \<Rightarrow> string \<Rightarrow> item list \<Rightarrow> error + item list" where
  "rank_items MAX_RESULTS score kw items =
     (case js_sort (compare_items score kw) items of
        Inl e \<Rightarrow> Inl e
      | Inr sorted_items \<Rightarrow>
          (case js_filter (keep_item score kw) sorted_items of
             Inl e \<Rightarrow> Inl e
           | Inr kept \<Rightarrow> Inr (take MAX_RESULTS kept)))"

definition then_callback :: "nat \<Rightarrow> scorer \<Rightarrow> string \<Rightarrow> item list list \<Rightarrow> error + item list" where
  "then_callback MAX_RESULTS score kw resultSet =
     (case reduce_concat resultSet of
        Inl e \<Rightarrow> Inl e
      | Inr items \<Rightarrow> rank_items MAX_RESULTS score kw items)"

section \<open>\<open>handleQueryCommand\<close>\<close>

text \<open>
  What one run of the handler does to the outside: the provider calls it made, and
  the array sent with \<open>IPC_QUERY_RESULTS\<close>, \<open>None\<close> when nothing is sent. In
  \<open>retval || []\<close> the left side is an array, which is truthy even when empty, so
  \<open>retval\<close> itself is sent.
\<close>

record query_run =
  calls :: "call list"
  response :: "item list option"

definition keyword_of :: "string \<Rightarrow> string" where
  "keyword_of queryPhrase = (case split_sp queryPhrase of [] \<Rightarrow> [] | kw # args \<Rightarrow> kw)"

definition handleQueryCommand ::
    "nat \<Rightarrow> scorer \<Rightarrow> providers \<Rightarrow> string \<Rightarrow> plugin list \<Rightarrow> query_run" where
  "handleQueryCommand MAX_RESULTS score prov queryPhrase plugins =
     (case issue prov (route plugins queryPhrase) of
        (made, None) \<Rightarrow> \<lparr>calls = made, response = None\<rparr>
      | (made, Some results) \<Rightarrow>
          (case promise_all results of
             Rejected \<Rightarrow> \<lparr>calls = made, response = None\<rparr>
           | Fulfilled resultSet \<Rightarrow>
               (case then_callback MAX_RESULTS score (keyword_of queryPhrase) resultSet of
                  Inl e \<Rightarrow> \<lparr>calls = made, response = None\<rparr>
                | Inr retval \<Rightarrow> \<lparr>calls = made, response = Some retval\<rparr>)))"

text \<open>
  The items of the fulfilled provider calls, concatenated in call order: what the
  \<open>reduce\<close> step yields when every call of the list is fulfilled.
\<close>

fun call_plugin :: "call \<Rightarrow> plugin" where
  "call_plugin (QueryHelper p kw) = p"
| "call_plugin (QueryResults p tokens) = p"

definition fulfilled_items :: "providers \<Rightarrow> call \<Rightarrow> item list" where
  "fulfilled_items prov c =
     (case prov c of
        Returns (Fulfilled xs) \<Rightarrow> xs
      | Returns Rejected \<Rightarrow> []
      | Throws \<Rightarrow> [])"

definition aggregated :: "providers \<Rightarrow> call list \<Rightarrow> item list" where
  "aggregated prov cs = concat (map (fulfilled_items prov) cs)"

section \<open>\<open>handleItemDetailsRequest\<close> and the detail cache\<close>

text \<open>
  The class \<open>CacheConf\<close> (\<open>../../utils/CacheConf\<close>) is not among the sources. The
  spec gives it as a persistent key-value store with \<open>has(key)\<close>, \<open>get(key)\<close> and
  \<open>set(key, value)\<close> per namespace, whose entries never expire and stay until they
  are overwritten. A store maps a namespace (\<open>configName\<close>) and a key to the stored
  content.
\<close>

type_synonym cache_store = "string \<Rightarrow> string \<rightharpoonup> string"

text \<open>
  Modelled from the spec: \<open>CacheConf.has\<close>, which is missing from the sources. It
  tells whether the namespace has an entry for the key.
\<close>

definition cacheConf_has :: "cache_store \<Rightarrow> string \<Rightarrow> string \<Rightarrow> bool" where
  "cacheConf_has st configName key = (st configName key \<noteq> None)"

text \<open>
  Modelled from the spec: \<open>CacheConf.get\<close>, which is missing from the sources. It
  returns the entry for the key; \<open>None\<close> stands for \<open>undefined\<close>.
\<close>

definition cacheConf_get :: "cache_store \<Rightarrow> string \<Rightarrow> string \<Rightarrow> string option" where
  "cacheConf_get st configName key = st configName key"

text \<open>
  Modelled from the spec: \<open>CacheConf.set\<close>, which is missing from the sources. It
  creates or overwrites the entry for the key and touches no other entry.
\<close>

definition cacheConf_set :: "cache_store \<Rightarrow> string \<Rightarrow> string \<Rightarrow> string \<Rightarrow> cache_store" where
  "cacheConf_set st configName key v = st(configName := (st configName)(key \<mapsto> v))"

text \<open>
  What the handler does to the outside, in order: it calls the plugin's detail entry
  point (\<open>retrieveItemDetails\<close> on the module loaded from \<open>item.plugin.path\<close>), it
  writes a cache entry, it sends \<open>IPC_ITEM_DETAILS_RESPONSE\<close>.
\<close>

datatype effect = Invoke item | CacheSet string string string | Send string

text \<open>
  The state between events: the cache, the effects so far, and the promises
  \<open>Promise.resolve(content)\<close> whose \<open>then\<close> callback has not run yet. Each promise
  carries the \<open>configName\<close> and \<open>cacheKey\<close> its callback closes over.
\<close>

record details_state =
  store :: cache_store
  effects :: "effect list"
  pending :: "(string \<times> string \<times> string promise) list"

text \<open>
  The synchronous body of \<open>handleItemDetailsRequest\<close>. \<open>path.basename\<close> and
  \<open>JSON.stringify\<close> are built-ins and parameters here; \<open>retrieved\<close> is what the
  plugin's detail entry point does if it is called: it throws, or it returns content
  or a promise of content. \<open>get\<close> is only called after \<open>has\<close> answered true, so its
  \<open>None\<close> case is never taken.
\<close>

definition handleItemDetailsRequest ::
    "(string \<Rightarrow> string) \<Rightarrow> (item \<Rightarrow> string) \<Rightarrow> string outcome \<Rightarrow> item
     \<Rightarrow> details_state \<Rightarrow> details_state" where
  "handleItemDetailsRequest basename stringify retrieved item st =
     (let configName = basename (path (plugin item)) @ ''-itemDetails'';
          cacheKey = stringify item
      in if cacheConf_has (store st) configName cacheKey
         then (case cacheConf_get (store st) configName cacheKey of
                 None \<Rightarrow> st
               | Some content \<Rightarrow>
                   st\<lparr>pending := pending st @ [(configName, cacheKey, Fulfilled content)]\<rparr>)
         else (case retrieved of
                 Throws \<Rightarrow> st\<lparr>effects := effects st @ [Invoke item]\<rparr>
               | Returns content \<Rightarrow>
                   st\<lparr>effects := effects st @ [Invoke item],
                      pending := pending st @ [(configName, cacheKey, content)]\<rparr>))"

text \<open>
  The \<open>then\<close> callback of one promise: \<open>cacheConf.set(cacheKey, html)\<close>, then the
  send. A rejected promise never runs it.
\<close>

fun details_then :: "string \<times> string \<times> string promise \<Rightarrow> details_state \<Rightarrow> details_state" where
  "details_then (configName, cacheKey, Fulfilled html) st =
     st\<lparr>store := cacheConf_set (store st) configName cacheKey html,
        effects := effects st @ [CacheSet configName cacheKey html, Send html]\<rparr>"
| "details_then (configName, cacheKey, Rejected) st = st"

text \<open>
  The event loop: a request arrives, or the pending promise at some position
  settles. Any interleaving of requests and settlements is a list of events.
\<close>

datatype event = Request item "string outcome" | Settle nat

fun step ::
    "(string \<Rightarrow> string) \<Rightarrow> (item \<Rightarrow> string) \<Rightarrow> details_state \<Rightarrow> event \<Rightarrow> details_state" where
  "step basename stringify st (Request item retrieved) =
     handleItemDetailsRequest basename stringify retrieved item st"
| "step basename stringify st (Settle n) =
     (if n < length (pending st)
      then details_then (pending st ! n)
             (st\<lparr>pending := take n (pending st) @ drop (Suc n) (pending st)\<rparr>)
      else st)"

definition run ::
    "(string \<Rightarrow> string) \<Rightarrow> (item \<Rightarrow> string) \<Rightarrow> details_state \<Rightarrow> event list \<Rightarrow> details_state" where
  "run basename stringify st events = foldl (step basename stringify) st events"

text \<open>The cache namespace and key of an item, as the handler computes them.\<close>

definition configName_of :: "(string \<Rightarrow> string) \<Rightarrow> item \<Rightarrow> string" where
  "configName_of basename item = basename (path (plugin item)) @ ''-itemDetails''"

section \<open>Notions used in the statements\<close>

text \<open>A provider call that returns a promise which is fulfilled.\<close>

definition fulfilled :: "providers \<Rightarrow> call \<Rightarrow> bool" where
  "fulfilled prov c =
     (case prov c of
        Returns (Fulfilled xs) \<Rightarrow> True
      | Returns Rejected \<Rightarrow> False
      | Throws \<Rightarrow> False)"

definition titled :: "item \<Rightarrow> bool" where
  "titled i = (title i \<noteq> None)"

text \<open>The score of an item that has a title (and 0 for one that has none).\<close>

definition score_val :: "scorer \<Rightarrow> string \<Rightarrow> item \<Rightarrow> real" where
  "score_val score kw i =
     (case title i of None \<Rightarrow> 0 | Some t \<Rightarrow> score (toLowerCase t) kw)"

text \<open>An item qualifies when its score is exactly 0 or strictly greater than 0.25.\<close>

definition qualifies :: "scorer \<Rightarrow> string \<Rightarrow> item \<Rightarrow> bool" where
  "qualifies score kw i =
     (case item_score score kw i of
        Inl e \<Rightarrow> False
      | Inr s \<Rightarrow> s = 0 \<or> 0.25 < s)"

text \<open>Both items have a score, and the first one's is at least the second one's.\<close>

definition score_geq :: "scorer \<Rightarrow> string \<Rightarrow> item \<Rightarrow> item \<Rightarrow> bool" where
  "score_geq score kw a b =
     (case item_score score kw a of
        Inl e \<Rightarrow> False
      | Inr sa \<Rightarrow>
          (case item_score score kw b of
             Inl e \<Rightarrow> False
           | Inr sb \<Rightarrow> sb \<le> sa))"

text \<open>
  A pending promise that cannot change what the cache holds under the given namespace
  and key: it belongs to another key, or it is fulfilled with the given content, or
  it is rejected.
\<close>

definition agrees :: "string \<Rightarrow> string \<Rightarrow> string \<Rightarrow> string \<times> string \<times> string promise \<Rightarrow> bool" where
  "agrees configName cacheKey html e =
     (case e of
        (n, k, Rejected) \<Rightarrow> True
      | (n, k, Fulfilled v) \<Rightarrow> n \<noteq> configName \<or> k \<noteq> cacheKey \<or> v = html)"

text \<open>A function applied to every item of a ranking result; an error stays.\<close>

definition map_result :: "('a \<Rightarrow> 'b) \<Rightarrow> error + 'a list \<Rightarrow> error + 'b list" where
  "map_result f r = (case r of Inl e \<Rightarrow> Inl e | Inr xs \<Rightarrow> Inr (map f xs))"

section \<open>Sample plugins, items and parameters\<close>

definition calc_plugin :: plugin where
  "calc_plugin = \<lparr>path = ''/plugins/calc'', name = ''calc'', isCore = True, keyword = Some ''calc''\<rparr>"

definition about_plugin :: plugin where
  "about_plugin = \<lparr>path = ''/plugins/about'', name = ''about'', isCore = True, keyword = None\<rparr>"

definition gh_plugin :: plugin where
  "gh_plugin = \<lparr>path = ''/plugins/gh'', name = ''gh'', isCore = False, keyword = Some ''gh''\<rparr>"

text \<open>A scorer that knows exact matches only.\<close>

definition exact_score :: scorer where
  "exact_score candidate query = (if candidate = query then 1 else 0)"

text \<open>A scorer that grades by the length of the candidate.\<close>

definition length_score :: scorer where
  "length_score candidate query = 1 / (1 + real (length candidate))"

definition about_item :: "string \<Rightarrow> string \<Rightarrow> item" where
  "about_item t a = \<lparr>title = Some t, arg = a, plugin = about_plugin\<rparr>"

definition untitled_item :: item where
  "untitled_item = \<lparr>title = None, arg = ''x'', plugin = about_plugin\<rparr>"

text \<open>Twenty-one items with the same title, told apart by \<open>arg\<close>.\<close>

definition numbered_items :: "item list" where
  "numbered_items = map (\<lambda>n. about_item ''about'' (replicate n CHR ''i'')) [0..<21]"

definition numbered_prov :: providers where
  "numbered_prov c = Returns (Fulfilled numbered_items)"

text \<open>Five items of different title lengths, and a provider that returns them.\<close>

definition sample_batch :: "item list" where
  "sample_batch =
     [about_item ''abcdef'' ''1'', about_item ''Ab'' ''2'', about_item ''ab'' ''3'',
      about_item ''abc'' ''4'', about_item '''' ''5'']"

definition sample_prov :: providers where
  "sample_prov c = Returns (Fulfilled sample_batch)"

text \<open>Providers of which the one for \<open>gh\<close> fails: by rejecting, or by throwing.\<close>

definition rejecting_prov :: providers where
  "rejecting_prov c =
     (if call_plugin c = gh_plugin then Returns Rejected else Returns (Fulfilled sample_batch))"

definition throwing_prov :: providers where
  "throwing_prov c =
     (if call_plugin c = gh_plugin then Throws else Returns (Fulfilled sample_batch))"

text \<open>A provider whose second item has no title.\<close>

definition malformed_prov :: providers where
  "malformed_prov c = Returns (Fulfilled [about_item ''about'' ''1'', untitled_item])"

text \<open>An item of the calculator plugin, and a second one.\<close>

definition calc_item :: item where
  "calc_item = \<lparr>title = Some ''2+2'', arg = ''4'', plugin = calc_plugin\<rparr>"

definition other_item :: item where
  "other_item = \<lparr>title = Some ''3*3'', arg = ''9'', plugin = calc_plugin\<rparr>"

text \<open>The last path component, for paths that do not end in a slash.\<close>

definition sample_basename :: "string \<Rightarrow> string" where
  "sample_basename p = rev (takeWhile (\<lambda>c. c \<noteq> CHR ''/'') (rev p))"

text \<open>A change of letter case in one title.\<close>

definition shout :: "item \<Rightarrow> item" where
  "shout i = (if title i = Some ''Ab'' then i\<lparr>title := Some ''AB''\<rparr> else i)"

text \<open>A serialisation that is enough to tell the sample items apart.\<close>

definition sample_stringify :: "item \<Rightarrow> string" where
  "sample_stringify i =
     (case title i of None \<Rightarrow> ''null'' | Some t \<Rightarrow> t) @ CHR ''|'' # arg i @ CHR ''|'' # path (plugin i)"

definition empty_state :: details_state where
  "empty_state = \<lparr>store = (\<lambda>configName. Map.empty), effects = [], pending = []\<rparr>"

text \<open>
  The state after a first request for \<open>calc_item\<close>, whose plugin returned content
  that is not yet stored; and the state after that content was stored.
\<close>

definition requested_state :: details_state where
  "requested_state =
     handleItemDetailsRequest sample_basename sample_stringify
       (Returns (Fulfilled ''<p>4</p>'')) calc_item empty_state"

definition cached_state :: details_state where
  "cached_state = step sample_basename sample_stringify requested_state (Settle 0)"

section \<open>Routing\<close>

lemma split_sp_not_Nil: "split_sp s \<noteq> []"
  by (induction s) (auto split: list.splits)

text \<open>
  When no plugin passes the keyword test, the fallback loop applies the same test
  again next to \<open>isCore\<close>, so it pushes nothing.
\<close>

lemma route_tokens_fallback:
  "matchedPlugins plugins kw = [] \<Longrightarrow> route_tokens plugins kw args = []"
proof -
  assume m: "matchedPlugins plugins kw = []"
  then have "filter (keyword_ok kw) plugins = []" by (simp add: matchedPlugins_def)
  then have "\<forall>p \<in> set plugins. \<not> keyword_ok kw p" by (simp add: filter_empty_conv)
  then have "filter (\<lambda>p. isCore p \<and> keyword_ok kw p) plugins = []"
    by (simp add: filter_empty_conv)
  with m show ?thesis by (simp add: route_tokens_def)
qed

lemma route_tokens_matched:
  "matchedPlugins plugins kw \<noteq> [] \<Longrightarrow>
   route_tokens plugins kw args =
     map (matched_call (kw # args) kw args (trim (join_sp args))) (matchedPlugins plugins kw)"
  by (simp add: route_tokens_def)

lemma matched_call_keyword:
  "keyword_ok kw p \<Longrightarrow> has_keyword p \<Longrightarrow>
   matched_call fr kw args (trim (join_sp args)) p =
     (if \<not> isCore p \<and> trim (join_sp args) = [] then QueryHelper p kw else QueryResults p args)"
  by (simp add: matched_call_def display_of_def)

lemma call_plugin_matched_call: "call_plugin (matched_call fr kw args qs p) = p"
  by (simp add: matched_call_def split: display.splits)

lemma handleQueryCommand_empty_route:
  "route plugins q = [] \<Longrightarrow>
   handleQueryCommand m score prov q plugins = \<lparr>calls = [], response = None\<rparr>"
  by (simp add: handleQueryCommand_def then_callback_def reduce_concat_def)

text \<open>
  Claim C1 (fallback to the core plugins). The claim: when the first token matches no
  plugin's keyword, exactly the plugins with \<open>isCore\<close> are queried, in results mode,
  with the full token list. The code at the phrase \<open>xyz hello\<close> with the one core
  plugin \<open>calc\<close> (keyword \<open>calc\<close>): the matched set is empty, the plugin is core,
  and no provider call is made.
\<close>

theorem fallback_skips_core_plugin:
  "split_sp ''xyz hello'' = [''xyz'', ''hello''] \<and>
   matchedPlugins [calc_plugin] ''xyz'' = [] \<and>
   isCore calc_plugin \<and>
   route [calc_plugin] ''xyz hello'' = []"
  by (simp add: route_def route_tokens_def matchedPlugins_def keyword_ok_def has_keyword_def
      calc_plugin_def)

text \<open>
  Claim C2 (empty routed set). The claim: with no plugin routed, no provider call is
  made and an empty sequence is delivered. The code at the phrase \<open>xyz hello\<close> with
  no plugins, and with the one plugin \<open>calc\<close>: no call is made, \<open>reduce\<close> raises on
  the empty \<open>resultSet\<close>, and nothing is sent.
\<close>

theorem empty_route_sends_nothing:
  "route [] ''xyz hello'' = [] \<and>
   handleQueryCommand 20 exact_score sample_prov ''xyz hello'' []
     = \<lparr>calls = [], response = None\<rparr> \<and>
   route [calc_plugin] ''xyz hello'' = [] \<and>
   handleQueryCommand 20 exact_score sample_prov ''xyz hello'' [calc_plugin]
     = \<lparr>calls = [], response = None\<rparr>"
  by (simp add: route_def route_tokens_def matchedPlugins_def handleQueryCommand_def
      then_callback_def reduce_concat_def keyword_ok_def has_keyword_def calc_plugin_def)

text \<open>
  Claim C3 (helper or results mode), as stated: every matched plugin with a keyword is
  asked for its helper when nothing follows the keyword. It fails for a core plugin:
  \<open>calc\<close> is matched by the phrase \<open>calc\<close>, has a keyword, nothing follows the
  keyword, and it is queried in results mode with no arguments.
\<close>

theorem core_keyword_plugin_gets_results:
  "calc_plugin \<in> set (matchedPlugins [calc_plugin] ''calc'') \<and>
   has_keyword calc_plugin \<and>
   split_sp ''calc'' = [''calc''] \<and>
   trim (join_sp []) = [] \<and>
   route [calc_plugin] ''calc'' = [QueryResults calc_plugin []]"
  by (simp add: route_def route_tokens_def matchedPlugins_def keyword_ok_def has_keyword_def
      calc_plugin_def matched_call_def display_of_def trim_def)

text \<open>
  Claim C3, amended: a matched plugin with a keyword gets exactly one kind of call. If
  it is not a core plugin and the trimmed string after the keyword is empty, the call
  is \<open>queryHelper\<close> with the keyword; otherwise (a core plugin, or a non-empty
  argument string) it is \<open>queryResults\<close> with the tokens after the keyword.
\<close>

theorem keyword_plugin_mode:
  assumes "split_sp queryPhrase = kw # args"
    and "p \<in> set (matchedPlugins plugins kw)"
    and "has_keyword p"
  shows "(if \<not> isCore p \<and> trim (join_sp args) = [] then QueryHelper p kw else QueryResults p args)
           \<in> set (route plugins queryPhrase)
         \<and> (\<forall>c \<in> set (route plugins queryPhrase). call_plugin c = p \<longrightarrow>
              c = (if \<not> isCore p \<and> trim (join_sp args) = [] then QueryHelper p kw
                   else QueryResults p args))"
proof -
  let ?f = "matched_call (kw # args) kw args (trim (join_sp args))"
  from assms(2) have ne: "matchedPlugins plugins kw \<noteq> []" by auto
  have r: "route plugins queryPhrase = map ?f (matchedPlugins plugins kw)"
    by (simp add: route_def assms(1) route_tokens_matched[OF ne])
  from assms(2) have ok: "keyword_ok kw p" by (simp add: matchedPlugins_def)
  have fp: "?f p = (if \<not> isCore p \<and> trim (join_sp args) = [] then QueryHelper p kw
                    else QueryResults p args)"
    by (rule matched_call_keyword[OF ok assms(3)])
  have 1: "?f p \<in> set (route plugins queryPhrase)"
    unfolding r using assms(2) by simp
  have 2: "\<forall>c \<in> set (route plugins queryPhrase). call_plugin c = p \<longrightarrow> c = ?f p"
    unfolding r by (auto simp: call_plugin_matched_call)
  from 1 2 show ?thesis unfolding fp by blast
qed

theorem keyword_plugin_mode_witness:
  "split_sp ''gh '' = [''gh'', []] \<and> split_sp ''gh dext'' = [''gh'', ''dext'']
   \<and> gh_plugin \<in> set (matchedPlugins [about_plugin, gh_plugin] ''gh'')
   \<and> has_keyword gh_plugin
   \<and> QueryHelper gh_plugin ''gh'' \<in> set (route [about_plugin, gh_plugin] ''gh '')
   \<and> QueryResults gh_plugin [''dext''] \<in> set (route [about_plugin, gh_plugin] ''gh dext'')"
proof -
  have s1: "split_sp ''gh '' = ''gh'' # [[]]" by simp
  have s2: "split_sp ''gh dext'' = ''gh'' # [''dext'']" by simp
  have m: "gh_plugin \<in> set (matchedPlugins [about_plugin, gh_plugin] ''gh'')"
    by (simp add: matchedPlugins_def keyword_ok_def has_keyword_def gh_plugin_def about_plugin_def)
  have k: "has_keyword gh_plugin" by (simp add: has_keyword_def gh_plugin_def)
  have t1: "trim (join_sp [[]]) = []" by (simp add: trim_def)
  have t2: "trim (join_sp [''dext'']) \<noteq> []" by (simp add: trim_def js_whitespace_def)
  have c: "\<not> isCore gh_plugin" by (simp add: gh_plugin_def)
  from keyword_plugin_mode[OF s1 m k] keyword_plugin_mode[OF s2 m k] t1 t2 c s1 s2 m k
  show ?thesis by simp
qed

section \<open>Ranking a batch\<close>

text \<open>
  On a batch in which every item has a title, the three passes are the stable sort by
  descending score, the threshold filter and the cap. On any other batch the filter
  callback raises.
\<close>

lemma error_eq: "(e::error) = TypeError"
  by (cases e) simp

lemma item_score_titled: "titled i \<Longrightarrow> item_score score kw i = Inr (score_val score kw i)"
  by (auto simp: titled_def item_score_def score_val_def)

lemma item_score_untitled: "\<not> titled i \<Longrightarrow> item_score score kw i = Inl TypeError"
  by (auto simp: titled_def item_score_def)

lemma compare_items_titled:
  "titled a \<Longrightarrow> titled b \<Longrightarrow>
   compare_items score kw a b =
     Inr (if score_val score kw a = score_val score kw b then 0
          else if score_val score kw a < score_val score kw b then 1 else - 1)"
  by (simp add: compare_items_def item_score_titled)

lemma insert_by_titled:
  "titled x \<Longrightarrow> list_all titled ys \<Longrightarrow>
   insert_by (compare_items score kw) x ys =
     Inr (insort_key (\<lambda>i. - score_val score kw i) x ys)"
  by (induction ys) (simp_all add: compare_items_titled)

lemma list_all_titled_sort:
  "list_all titled xs \<Longrightarrow> list_all titled (sort_key f xs)"
  by (simp add: list_all_iff)

lemma js_sort_titled:
  "list_all titled xs \<Longrightarrow>
   js_sort (compare_items score kw) xs = Inr (sort_key (\<lambda>i. - score_val score kw i) xs)"
  by (induction xs) (simp_all add: insert_by_titled list_all_titled_sort)

lemma qualifies_titled:
  "titled i \<Longrightarrow> qualifies score kw i = (score_val score kw i = 0 \<or> 0.25 < score_val score kw i)"
  by (simp add: qualifies_def item_score_titled)

lemma keep_item_titled:
  "titled i \<Longrightarrow> keep_item score kw i = Inr (qualifies score kw i)"
  by (simp add: keep_item_def item_score_titled qualifies_titled)

lemma js_filter_titled:
  "list_all titled xs \<Longrightarrow>
   js_filter (keep_item score kw) xs = Inr (filter (qualifies score kw) xs)"
  by (induction xs) (simp_all add: keep_item_titled)

lemma rank_items_titled:
  "list_all titled xs \<Longrightarrow>
   rank_items m score kw xs =
     Inr (take m (filter (qualifies score kw) (sort_key (\<lambda>i. - score_val score kw i) xs)))"
  by (simp add: rank_items_def js_sort_titled js_filter_titled list_all_titled_sort)

lemma insert_by_set: "insert_by cmp x ys = Inr zs \<Longrightarrow> set zs = insert x (set ys)"
proof (induction ys arbitrary: zs)
  case Nil then show ?case by auto
next
  case (Cons y ys)
  show ?case
  proof (cases "cmp x y")
    case (Inl e) with Cons.prems show ?thesis by simp
  next
    case (Inr c)
    show ?thesis
    proof (cases "c \<le> 0")
      case True with Inr Cons.prems show ?thesis by auto
    next
      case False
      with Inr Cons.prems obtain ws where w: "insert_by cmp x ys = Inr ws" and z: "zs = y # ws"
        by (cases "insert_by cmp x ys") auto
      from Cons.IH[OF w] z show ?thesis by auto
    qed
  qed
qed

lemma js_sort_set: "js_sort cmp xs = Inr ys \<Longrightarrow> set ys = set xs"
proof (induction xs arbitrary: ys)
  case Nil then show ?case by simp
next
  case (Cons x xs)
  from Cons.prems obtain zs where z: "js_sort cmp xs = Inr zs" and i: "insert_by cmp x zs = Inr ys"
    by (cases "js_sort cmp xs") simp_all
  have a: "set zs = set xs" using Cons.IH[OF z] .
  have b: "set ys = insert x (set zs)" using insert_by_set[OF i] .
  show ?case unfolding b a by simp
qed

lemma js_filter_untitled:
  "\<not> list_all titled xs \<Longrightarrow> js_filter (keep_item score kw) xs = Inl TypeError"
proof (induction xs)
  case Nil then show ?case by simp
next
  case (Cons x xs)
  show ?case
  proof (cases "titled x")
    case True
    with Cons have "js_filter (keep_item score kw) xs = Inl TypeError" by simp
    then show ?thesis by (simp add: keep_item_titled True)
  next
    case False
    then show ?thesis by (simp add: keep_item_def item_score_untitled)
  qed
qed

lemma rank_items_untitled:
  "\<not> list_all titled xs \<Longrightarrow> rank_items m score kw xs = Inl TypeError"
proof (cases "js_sort (compare_items score kw) xs")
  case (Inl e)
  then show ?thesis by (simp add: rank_items_def error_eq)
next
  case (Inr ys)
  assume "\<not> list_all titled xs"
  with js_sort_set[OF Inr] have "\<not> list_all titled ys" by (simp add: list_all_iff)
  then show ?thesis by (simp add: rank_items_def Inr js_filter_untitled)
qed

lemma rank_items_Inr:
  assumes "rank_items m score kw xs = Inr out"
  shows "list_all titled xs"
    and "out = take m (filter (qualifies score kw) (sort_key (\<lambda>i. - score_val score kw i) xs))"
proof -
  show t: "list_all titled xs"
  proof (rule ccontr)
    assume "\<not> list_all titled xs"
    from rank_items_untitled[OF this] assms show False by simp
  qed
  from rank_items_titled[OF t] assms
  show "out = take m (filter (qualifies score kw) (sort_key (\<lambda>i. - score_val score kw i) xs))"
    by simp
qed

section \<open>The join of the provider calls\<close>

lemma issue_fulfilled:
  "list_all (fulfilled prov) cs \<Longrightarrow>
   \<exists>ps. issue prov cs = (cs, Some ps) \<and>
        promise_all ps = Fulfilled (map (fulfilled_items prov) cs)"
proof (induction cs)
  case Nil then show ?case by simp
next
  case (Cons c cs)
  then obtain ps where ps: "issue prov cs = (cs, Some ps)"
      "promise_all ps = Fulfilled (map (fulfilled_items prov) cs)" by auto
  from Cons.prems have "fulfilled prov c" by simp
  then obtain xs where xs: "prov c = Returns (Fulfilled xs)"
    by (auto simp: fulfilled_def split: outcome.splits promise.splits)
  then show ?case using ps by (simp add: fulfilled_items_def)
qed

lemma issue_not_fulfilled:
  "\<not> list_all (fulfilled prov) cs \<Longrightarrow>
   (\<exists>made. issue prov cs = (made, None)) \<or>
   (\<exists>made ps. issue prov cs = (made, Some ps) \<and> promise_all ps = Rejected)"
proof (induction cs)
  case Nil then show ?case by simp
next
  case (Cons c cs)
  show ?case
  proof (cases "prov c")
    case Throws then show ?thesis by simp
  next
    case (Returns pr)
    show ?thesis
    proof (cases "issue prov cs")
      case (Pair made r)
      show ?thesis
      proof (cases r)
        case None with Pair Returns show ?thesis by simp
      next
        case (Some ps)
        show ?thesis
        proof (cases pr)
          case Rejected with Pair Some Returns show ?thesis by simp
        next
          case (Fulfilled xs)
          with Returns have "fulfilled prov c" by (simp add: fulfilled_def)
          with Cons.prems have "\<not> list_all (fulfilled prov) cs" by simp
          from Cons.IH[OF this] Pair Some have "promise_all ps = Rejected" by simp
          with Pair Some Returns Fulfilled show ?thesis by simp
        qed
      qed
    qed
  qed
qed

lemma foldl_append_concat: "foldl (\<lambda>prev next. prev @ next) first rest = first @ concat rest"
  by (induction rest arbitrary: first) simp_all

lemma reduce_concat_nonempty: "rs \<noteq> [] \<Longrightarrow> reduce_concat rs = Inr (concat rs)"
  by (cases rs) (simp_all add: reduce_concat_def foldl_append_concat)

lemma handleQueryCommand_not_fulfilled:
  assumes "\<not> list_all (fulfilled prov) (route plugins q)"
  shows "response (handleQueryCommand m score prov q plugins) = None"
proof -
  from issue_not_fulfilled[OF assms] show ?thesis
  proof
    assume "\<exists>made. issue prov (route plugins q) = (made, None)"
    then show ?thesis by (auto simp: handleQueryCommand_def)
  next
    assume "\<exists>made ps. issue prov (route plugins q) = (made, Some ps) \<and> promise_all ps = Rejected"
    then show ?thesis by (auto simp: handleQueryCommand_def)
  qed
qed

lemma handleQueryCommand_fulfilled:
  assumes "list_all (fulfilled prov) (route plugins q)" and "route plugins q \<noteq> []"
  shows "handleQueryCommand m score prov q plugins =
           \<lparr>calls = route plugins q,
            response = (case rank_items m score (keyword_of q) (aggregated prov (route plugins q)) of
                          Inl e \<Rightarrow> None | Inr out \<Rightarrow> Some out)\<rparr>"
proof -
  from issue_fulfilled[OF assms(1)] obtain ps where
    ps: "issue prov (route plugins q) = (route plugins q, Some ps)"
        "promise_all ps = Fulfilled (map (fulfilled_items prov) (route plugins q))" by blast
  from assms(2) have "map (fulfilled_items prov) (route plugins q) \<noteq> []" by simp
  from reduce_concat_nonempty[OF this]
  have "then_callback m score (keyword_of q) (map (fulfilled_items prov) (route plugins q))
          = rank_items m score (keyword_of q) (aggregated prov (route plugins q))"
    by (simp add: then_callback_def aggregated_def)
  then show ?thesis using ps by (simp add: handleQueryCommand_def split: sum.splits)
qed

lemma handleQueryCommand_response:
  assumes "response (handleQueryCommand m score prov q plugins) = Some out"
  shows "rank_items m score (keyword_of q) (aggregated prov (route plugins q)) = Inr out"
proof -
  have f: "list_all (fulfilled prov) (route plugins q)"
  proof (rule ccontr)
    assume "\<not> list_all (fulfilled prov) (route plugins q)"
    from handleQueryCommand_not_fulfilled[OF this] assms show False by simp
  qed
  have ne: "route plugins q \<noteq> []"
  proof
    assume "route plugins q = []"
    then have "handleQueryCommand m score prov q plugins = \<lparr>calls = [], response = None\<rparr>"
      by (simp add: handleQueryCommand_def then_callback_def reduce_concat_def)
    with assms show False by simp
  qed
  from handleQueryCommand_fulfilled[OF f ne, of m score] assms show ?thesis
    by (simp split: sum.splits)
qed

section \<open>Filtering, order and failures of the query handler\<close>

lemma length_filter_insort_key:
  "length (filter P (insort_key f x xs)) = length (filter P (x # xs))"
  by (induction xs) simp_all

lemma length_filter_sort_key:
  "length (filter P (sort_key f xs)) = length (filter P xs)"
  by (induction xs) (simp_all add: length_filter_insort_key)

text \<open>
  Claim C4 (threshold filter), as stated: an aggregated item is in the delivered output
  if and only if its score is 0 or above 0.25. The cap breaks the "if": with
  \<open>MAX_RESULTS\<close> at 20 and twenty-one items of score 1, the last item qualifies and
  is not delivered.
\<close>

theorem cap_drops_qualifying_item:
  "response (handleQueryCommand 20 exact_score numbered_prov ''about'' [about_plugin])
     = Some (take 20 numbered_items)
   \<and> about_item ''about'' (replicate 20 CHR ''i'')
       \<in> set (aggregated numbered_prov (route [about_plugin] ''about''))
   \<and> item_score exact_score (keyword_of ''about'') (about_item ''about'' (replicate 20 CHR ''i''))
       = Inr 1
   \<and> about_item ''about'' (replicate 20 CHR ''i'') \<notin> set (take 20 numbered_items)"
  by code_simp

text \<open>
  Claim C4, amended: every delivered item is an aggregated item whose score is 0 or
  above 0.25 (so no item with a score in (0, 0.25] is delivered); and when no more
  than \<open>MAX_RESULTS\<close> aggregated items qualify, the delivered items are exactly the
  qualifying ones.
\<close>

theorem threshold_filter_up_to_cap:
  assumes "response (handleQueryCommand m score prov q plugins) = Some out"
  shows "(\<forall>x \<in> set out. x \<in> set (aggregated prov (route plugins q))
                          \<and> qualifies score (keyword_of q) x)
       \<and> (length (filter (qualifies score (keyword_of q)) (aggregated prov (route plugins q))) \<le> m
            \<longrightarrow> set out = {x \<in> set (aggregated prov (route plugins q)).
                               qualifies score (keyword_of q) x})"
proof -
  let ?xs = "aggregated prov (route plugins q)"
  let ?Q = "qualifies score (keyword_of q)"
  let ?f = "\<lambda>i. - score_val score (keyword_of q) i"
  from handleQueryCommand_response[OF assms]
  have r: "rank_items m score (keyword_of q) ?xs = Inr out" .
  have out: "out = take m (filter ?Q (sort_key ?f ?xs))" by (rule rank_items_Inr(2)[OF r])
  have "set out \<subseteq> set (filter ?Q (sort_key ?f ?xs))" unfolding out by (rule set_take_subset)
  then have 1: "\<forall>x \<in> set out. x \<in> set ?xs \<and> ?Q x" by auto
  have 2: "set out = {x \<in> set ?xs. ?Q x}" if "length (filter ?Q ?xs) \<le> m"
  proof -
    from that have "length (filter ?Q (sort_key ?f ?xs)) \<le> m"
      by (simp only: length_filter_sort_key)
    then have "out = filter ?Q (sort_key ?f ?xs)" unfolding out by simp
    then show ?thesis by auto
  qed
  from 1 2 show ?thesis by blast
qed

theorem threshold_filter_up_to_cap_witness:
  "response (handleQueryCommand 20 length_score sample_prov ''about'' [about_plugin])
     = Some [about_item '''' ''5'', about_item ''Ab'' ''2'', about_item ''ab'' ''3'']
   \<and> qualifies length_score (keyword_of ''about'') (about_item ''Ab'' ''2'')
   \<and> set [about_item '''' ''5'', about_item ''Ab'' ''2'', about_item ''ab'' ''3'']
       = {x \<in> set (aggregated sample_prov (route [about_plugin] ''about'')).
            qualifies length_score (keyword_of ''about'') x}"
proof -
  have h: "response (handleQueryCommand 20 length_score sample_prov ''about'' [about_plugin])
     = Some [about_item '''' ''5'', about_item ''Ab'' ''2'', about_item ''ab'' ''3'']"
    by code_simp
  have l: "length (filter (qualifies length_score (keyword_of ''about''))
             (aggregated sample_prov (route [about_plugin] ''about''))) \<le> 20"
    by code_simp
  from threshold_filter_up_to_cap[OF h] l h show ?thesis by simp
qed

lemma score_geq_titled:
  "titled a \<Longrightarrow> titled b \<Longrightarrow>
   score_geq score kw a b = (score_val score kw b \<le> score_val score kw a)"
  by (simp add: score_geq_def item_score_titled)

lemma filter_score_titled:
  "list_all titled xs \<Longrightarrow>
   filter (\<lambda>i. item_score score kw i = Inr s) xs
     = filter (\<lambda>i. - score_val score kw i = - s) xs"
  by (induction xs) (simp_all add: item_score_titled)

lemma filter_qualifies_same_score:
  "list_all titled xs \<Longrightarrow>
   filter (qualifies score kw) (filter (\<lambda>i. - score_val score kw i = - s) xs)
     = (if s = 0 \<or> 0.25 < s then filter (\<lambda>i. - score_val score kw i = - s) xs else [])"
  by (induction xs) (auto simp: qualifies_titled)

text \<open>
  Claim C5 (order of the output): the delivered sequence is in non-increasing order of
  score, and for every score the delivered items of that score come in the order,
  and from the front, of the items of that score in the concatenated provider output.
\<close>

theorem ranked_output_sorted_stable:
  assumes "response (handleQueryCommand m score prov q plugins) = Some out"
  shows "sorted_wrt (score_geq score (keyword_of q)) out
       \<and> (\<forall>s. prefix (filter (\<lambda>i. item_score score (keyword_of q) i = Inr s) out)
                      (filter (\<lambda>i. item_score score (keyword_of q) i = Inr s)
                         (aggregated prov (route plugins q))))"
proof -
  let ?kw = "keyword_of q"
  let ?xs = "aggregated prov (route plugins q)"
  let ?Q = "qualifies score ?kw"
  let ?f = "\<lambda>i. - score_val score ?kw i"
  let ?ys = "sort_key ?f ?xs"
  from handleQueryCommand_response[OF assms]
  have r: "rank_items m score ?kw ?xs = Inr out" .
  have t: "list_all titled ?xs" by (rule rank_items_Inr(1)[OF r])
  have out: "out = take m (filter ?Q ?ys)" by (rule rank_items_Inr(2)[OF r])
  have tys: "list_all titled ?ys" by (rule list_all_titled_sort[OF t])
  have tout: "list_all titled out"
    unfolding out using tys by (auto simp: list_all_iff dest: in_set_takeD)
  have "sorted (map ?f ?ys)" by (rule sorted_sort_key)
  then have "sorted_wrt (\<lambda>a b. ?f a \<le> ?f b) ?ys" by (simp only: sorted_map)
  then have "sorted_wrt (\<lambda>a b. ?f a \<le> ?f b) (filter ?Q ?ys)" by (rule sorted_wrt_filter)
  then have so: "sorted_wrt (\<lambda>a b. ?f a \<le> ?f b) out" unfolding out by (rule sorted_wrt_take)
  have 1: "sorted_wrt (score_geq score ?kw) out"
  proof (rule sorted_wrt_mono_rel[OF _ so])
    fix a b assume "a \<in> set out" "b \<in> set out" "?f a \<le> ?f b"
    with tout show "score_geq score ?kw a b"
      by (simp add: list_all_iff score_geq_titled)
  qed
  have 2: "prefix (filter (\<lambda>i. item_score score ?kw i = Inr s) out)
                  (filter (\<lambda>i. item_score score ?kw i = Inr s) ?xs)" for s
  proof -
    let ?P = "\<lambda>i. ?f i = - s"
    have a: "filter (\<lambda>i. item_score score ?kw i = Inr s) out = filter ?P out"
      by (rule filter_score_titled[OF tout])
    have b: "filter (\<lambda>i. item_score score ?kw i = Inr s) ?xs = filter ?P ?xs"
      by (rule filter_score_titled[OF t])
    have "prefix out (filter ?Q ?ys)" unfolding out by (rule take_is_prefix)
    then have p: "prefix (filter ?P out) (filter ?P (filter ?Q ?ys))"
      by (rule filter_mono_prefix)
    have "filter ?P (filter ?Q ?ys) = filter ?Q (filter ?P ?ys)"
      by (simp add: conj_commute)
    also have "filter ?P ?ys = filter ?P ?xs" by (rule sort_key_stable)
    also have "filter ?Q (filter ?P ?xs) = (if s = 0 \<or> 0.25 < s then filter ?P ?xs else [])"
      by (rule filter_qualifies_same_score[OF t])
    finally have e: "filter ?P (filter ?Q ?ys)
                      = (if s = 0 \<or> 0.25 < s then filter ?P ?xs else [])" .
    show ?thesis
    proof (cases "s = 0 \<or> 0.25 < s")
      case True
      with e p show ?thesis unfolding a b by simp
    next
      case False
      with e p have "filter ?P out = []" by simp
      then show ?thesis unfolding a b by simp
    qed
  qed
  from 1 2 show ?thesis by blast
qed

theorem ranked_output_sorted_stable_witness:
  "response (handleQueryCommand 20 length_score sample_prov ''about'' [about_plugin])
     = Some [about_item '''' ''5'', about_item ''Ab'' ''2'', about_item ''ab'' ''3'']
   \<and> sorted_wrt (score_geq length_score (keyword_of ''about''))
        [about_item '''' ''5'', about_item ''Ab'' ''2'', about_item ''ab'' ''3'']
   \<and> prefix
        (filter (\<lambda>i. item_score length_score (keyword_of ''about'') i = Inr (1 / 3))
           [about_item '''' ''5'', about_item ''Ab'' ''2'', about_item ''ab'' ''3''])
        (filter (\<lambda>i. item_score length_score (keyword_of ''about'') i = Inr (1 / 3))
           (aggregated sample_prov (route [about_plugin] ''about'')))"
proof -
  have h: "response (handleQueryCommand 20 length_score sample_prov ''about'' [about_plugin])
     = Some [about_item '''' ''5'', about_item ''Ab'' ''2'', about_item ''ab'' ''3'']"
    by code_simp
  from ranked_output_sorted_stable[OF h] h show ?thesis by blast
qed

text \<open>
  Claim C7 (all-or-nothing join): if one provider call of the query throws or its
  promise is rejected, nothing is delivered.
\<close>

theorem provider_failure_fails_join:
  assumes "c \<in> set (route plugins q)"
    and "prov c = Throws \<or> prov c = Returns Rejected"
  shows "response (handleQueryCommand m score prov q plugins) = None"
proof -
  from assms(2) have "\<not> fulfilled prov c" by (auto simp: fulfilled_def)
  with assms(1) have "\<not> list_all (fulfilled prov) (route plugins q)"
    by (auto simp: list_all_iff)
  then show ?thesis by (rule handleQueryCommand_not_fulfilled)
qed

theorem provider_failure_fails_join_witness:
  "QueryResults gh_plugin [''dext''] \<in> set (route [about_plugin, gh_plugin] ''gh dext'')
   \<and> rejecting_prov (QueryResults gh_plugin [''dext'']) = Returns Rejected
   \<and> throwing_prov (QueryResults gh_plugin [''dext'']) = Throws
   \<and> response (handleQueryCommand 20 length_score rejecting_prov ''gh dext''
        [about_plugin, gh_plugin]) = None
   \<and> response (handleQueryCommand 20 length_score throwing_prov ''gh dext''
        [about_plugin, gh_plugin]) = None"
proof -
  have c: "QueryResults gh_plugin [''dext''] \<in> set (route [about_plugin, gh_plugin] ''gh dext'')"
    by code_simp
  have r: "rejecting_prov (QueryResults gh_plugin [''dext'']) = Returns Rejected"
    by (simp add: rejecting_prov_def)
  have t: "throwing_prov (QueryResults gh_plugin [''dext'']) = Throws"
    by (simp add: throwing_prov_def)
  have d1: "rejecting_prov (QueryResults gh_plugin [''dext'']) = Throws
            \<or> rejecting_prov (QueryResults gh_plugin [''dext'']) = Returns Rejected"
    using r by simp
  have d2: "throwing_prov (QueryResults gh_plugin [''dext'']) = Throws
            \<or> throwing_prov (QueryResults gh_plugin [''dext'']) = Returns Rejected"
    using t by simp
  from provider_failure_fails_join[where prov = rejecting_prov, OF c d1]
       provider_failure_fails_join[where prov = throwing_prov, OF c d2]
    c r t
  show ?thesis by simp
qed

text \<open>
  Claim C9 (item without a title), as stated: the handler has a fallback, so one such
  item never fails the batch. It has none: a batch of a well-formed item and an item
  without a title raises in the ranking pass, and nothing is delivered.
\<close>

theorem untitled_item_blocks_response:
  "route [about_plugin] ''about'' = [QueryResults about_plugin [''about'']]
   \<and> malformed_prov (QueryResults about_plugin [''about''])
       = Returns (Fulfilled [about_item ''about'' ''1'', untitled_item])
   \<and> title untitled_item = None
   \<and> response (handleQueryCommand 20 exact_score malformed_prov ''about'' [about_plugin]) = None"
  by code_simp

text \<open>
  Claim C9, amended: whenever a provider call of the query is fulfilled with an array
  that holds an item without a title, the ranking pass raises a TypeError and nothing
  is delivered for the query.
\<close>

theorem untitled_item_fails_batch:
  assumes "c \<in> set (route plugins q)"
    and "prov c = Returns (Fulfilled xs)"
    and "i \<in> set xs"
    and "title i = None"
  shows "response (handleQueryCommand m score prov q plugins) = None"
proof (cases "list_all (fulfilled prov) (route plugins q)")
  case False
  then show ?thesis by (rule handleQueryCommand_not_fulfilled)
next
  case True
  from assms(1) have ne: "route plugins q \<noteq> []" by auto
  from assms(2,3) have "i \<in> set (fulfilled_items prov c)" by (simp add: fulfilled_items_def)
  with assms(1) have "i \<in> set (aggregated prov (route plugins q))"
    by (auto simp: aggregated_def)
  moreover from assms(4) have "\<not> titled i" by (simp add: titled_def)
  ultimately have "\<not> list_all titled (aggregated prov (route plugins q))"
    by (auto simp: list_all_iff)
  then have "rank_items m score (keyword_of q) (aggregated prov (route plugins q)) = Inl TypeError"
    by (rule rank_items_untitled)
  with handleQueryCommand_fulfilled[OF True ne, of m score] show ?thesis by simp
qed

theorem untitled_item_fails_batch_witness:
  "QueryResults about_plugin [''about''] \<in> set (route [about_plugin] ''about'')
   \<and> untitled_item \<in> set [about_item ''about'' ''1'', untitled_item]
   \<and> response (handleQueryCommand 20 length_score malformed_prov ''about'' [about_plugin]) = None"
proof -
  have c: "QueryResults about_plugin [''about''] \<in> set (route [about_plugin] ''about'')"
    by code_simp
  have p: "malformed_prov (QueryResults about_plugin [''about''])
             = Returns (Fulfilled [about_item ''about'' ''1'', untitled_item])"
    by (simp add: malformed_prov_def)
  have i: "untitled_item \<in> set [about_item ''about'' ''1'', untitled_item]" by simp
  have t: "title untitled_item = None" by (simp add: untitled_item_def)
  from untitled_item_fails_batch[where prov = malformed_prov, OF c p i t] c i show ?thesis by simp
qed

section \<open>Letter case\<close>

lemma map_result_simps [simp]:
  "map_result f (Inl e) = Inl e" "map_result f (Inr xs) = Inr (map f xs)"
  by (simp_all add: map_result_def)

lemma insert_by_map:
  assumes "\<And>a b. cmp' (f a) (f b) = cmp a b"
  shows "insert_by cmp' (f x) (map f ys) = map_result f (insert_by cmp x ys)"
proof (induction ys)
  case Nil then show ?case by simp
next
  case (Cons y ys)
  show ?case
  proof (cases "cmp x y")
    case (Inl e) then show ?thesis by (simp add: assms)
  next
    case (Inr c)
    show ?thesis
    proof (cases "insert_by cmp x ys")
      case (Inl e) with Inr Cons show ?thesis by (simp add: assms)
    next
      case (Inr zs) with \<open>cmp x y = Inr c\<close> Cons show ?thesis by (simp add: assms)
    qed
  qed
qed

lemma js_sort_map:
  assumes "\<And>a b. cmp' (f a) (f b) = cmp a b"
  shows "js_sort cmp' (map f xs) = map_result f (js_sort cmp xs)"
proof (induction xs)
  case Nil then show ?case by simp
next
  case (Cons x xs)
  show ?case
  proof (cases "js_sort cmp xs")
    case (Inl e) with Cons show ?thesis by simp
  next
    case (Inr ys)
    with Cons have "js_sort cmp' (map f xs) = Inr (map f ys)" by simp
    with Inr show ?thesis by (simp add: insert_by_map[of cmp' f cmp, OF assms])
  qed
qed

lemma js_filter_map:
  assumes "\<And>a. pred' (f a) = pred a"
  shows "js_filter pred' (map f xs) = map_result f (js_filter pred xs)"
proof (induction xs)
  case Nil then show ?case by simp
next
  case (Cons x xs)
  show ?case
  proof (cases "pred x")
    case (Inl e) then show ?thesis by (simp add: assms)
  next
    case (Inr b)
    show ?thesis
    proof (cases "js_filter pred xs")
      case (Inl e) with Inr Cons show ?thesis by (simp add: assms)
    next
      case (Inr zs) with \<open>pred x = Inr b\<close> Cons show ?thesis by (simp add: assms)
    qed
  qed
qed

lemma item_score_recased:
  "map_option toLowerCase (title j) = map_option toLowerCase (title i) \<Longrightarrow>
   item_score score kw j = item_score score kw i"
  by (cases "title i"; cases "title j") (simp_all add: item_score_def)

text \<open>
  Claim C8 (case-insensitive ranking), as stated: title and keyword are both brought to
  one case before scoring, so the case of either never changes a score. The handler
  lower-cases the title only and hands the keyword to the scorer as typed: with a
  scorer that tells \<open>calc\<close> from \<open>CALC\<close>, the same item scores 1 against one and 0
  against the other.
\<close>

theorem keyword_case_changes_score:
  "toLowerCase ''CALC'' = toLowerCase ''calc''
   \<and> item_score exact_score ''calc'' (about_item ''Calc'' ''1'') = Inr 1
   \<and> item_score exact_score ''CALC'' (about_item ''Calc'' ''1'') = Inr 0"
  by code_simp

text \<open>
  Claim C8, amended: the title is lower-cased before scoring. For any scorer, a change
  of the letter case of titles alone (a map \<open>f\<close> on items under which every title
  keeps its lower-case form) changes no item's score and no filter outcome, and the
  ranking of the changed batch is the changed ranking of the batch.
\<close>

theorem title_case_does_not_matter:
  assumes "\<forall>i. map_option toLowerCase (title (f i)) = map_option toLowerCase (title i)"
  shows "item_score score kw (f i) = item_score score kw i
       \<and> keep_item score kw (f i) = keep_item score kw i
       \<and> rank_items m score kw (map f items) = map_result f (rank_items m score kw items)"
proof -
  have s: "item_score score kw (f a) = item_score score kw a" for a
    by (rule item_score_recased) (simp add: assms)
  have k: "keep_item score kw (f a) = keep_item score kw a" for a
    by (simp add: keep_item_def s)
  have c: "compare_items score kw (f a) (f b) = compare_items score kw a b" for a b
    unfolding compare_items_def s by (rule refl)
  have so: "js_sort (compare_items score kw) (map f items)
              = map_result f (js_sort (compare_items score kw) items)"
    by (rule js_sort_map) (rule c)
  have fi: "js_filter (keep_item score kw) (map f ys)
              = map_result f (js_filter (keep_item score kw) ys)" for ys
    by (rule js_filter_map) (rule k)
  have "rank_items m score kw (map f items) = map_result f (rank_items m score kw items)"
  proof (cases "js_sort (compare_items score kw) items")
    case (Inl e) then show ?thesis by (simp add: rank_items_def so)
  next
    case (Inr ys)
    show ?thesis
    proof (cases "js_filter (keep_item score kw) ys")
      case (Inl e) with Inr show ?thesis by (simp add: rank_items_def so fi)
    next
      case (Inr zs)
      with \<open>js_sort (compare_items score kw) items = Inr ys\<close> show ?thesis
        by (simp add: rank_items_def so fi take_map)
    qed
  qed
  with s k show ?thesis by simp
qed

theorem title_case_does_not_matter_witness:
  "item_score length_score ''about'' (shout (about_item ''Ab'' ''2''))
     = item_score length_score ''about'' (about_item ''Ab'' ''2'')
   \<and> shout (about_item ''Ab'' ''2'') = about_item ''AB'' ''2''
   \<and> rank_items 20 length_score ''about'' (map shout sample_batch)
       = Inr [about_item '''' ''5'', about_item ''AB'' ''2'', about_item ''ab'' ''3'']"
proof -
  have l: "toLowerCase ''AB'' = toLowerCase ''Ab''" by code_simp
  have h: "\<forall>i. map_option toLowerCase (title (shout i)) = map_option toLowerCase (title i)"
    by (simp add: shout_def l)
  have r: "rank_items 20 length_score ''about'' sample_batch
       = Inr [about_item '''' ''5'', about_item ''Ab'' ''2'', about_item ''ab'' ''3'']"
    by code_simp
  have m: "map shout [about_item '''' ''5'', about_item ''Ab'' ''2'', about_item ''ab'' ''3'']
       = [about_item '''' ''5'', about_item ''AB'' ''2'', about_item ''ab'' ''3'']"
    by code_simp
  have sh: "shout (about_item ''Ab'' ''2'') = about_item ''AB'' ''2''" by code_simp
  from title_case_does_not_matter[OF h, of length_score "''about''" "about_item ''Ab'' ''2''" 20 sample_batch]
    r m sh
  show ?thesis by simp
qed

section \<open>The detail cache\<close>

lemma handleItemDetailsRequest_store:
  "store (handleItemDetailsRequest b s r item st) = store st"
  by (simp add: handleItemDetailsRequest_def Let_def split: option.splits outcome.splits)

lemma handleItemDetailsRequest_hit:
  assumes "cacheConf_get (store st) (configName_of b item) (s item) = Some v"
  shows "handleItemDetailsRequest b s r item st
           = st\<lparr>pending := pending st @ [(configName_of b item, s item, Fulfilled v)]\<rparr>"
  using assms
  by (simp add: handleItemDetailsRequest_def configName_of_def cacheConf_has_def cacheConf_get_def)

lemma handleItemDetailsRequest_new_promise:
  assumes "pending (handleItemDetailsRequest b s r item st) = pending st @ [(n, k, p)]"
  shows "n = configName_of b item" and "k = s item"
    and "cacheConf_has (store st) n k \<Longrightarrow> \<exists>v. cacheConf_get (store st) n k = Some v \<and> p = Fulfilled v"
proof -
  show n: "n = configName_of b item" using assms
    by (auto simp: handleItemDetailsRequest_def configName_of_def Let_def
        split: option.splits outcome.splits if_splits)
  show k: "k = s item" using assms
    by (auto simp: handleItemDetailsRequest_def configName_of_def Let_def
        split: option.splits outcome.splits if_splits)
  assume "cacheConf_has (store st) n k"
  then obtain v where v: "cacheConf_get (store st) (configName_of b item) (s item) = Some v"
    unfolding n k by (auto simp: cacheConf_has_def cacheConf_get_def)
  from handleItemDetailsRequest_hit[where s = s and item = item and b = b and r = r, OF v] assms have "p = Fulfilled v" by simp
  with v show "\<exists>v. cacheConf_get (store st) n k = Some v \<and> p = Fulfilled v"
    unfolding n k by simp
qed

lemma details_then_fulfilled:
  "effects (details_then (n, k, Fulfilled html) st)
     = effects st @ [CacheSet n k html, Send html]"
  "cacheConf_get (store (details_then (n, k, Fulfilled html) st)) n k = Some html"
  by (simp_all add: cacheConf_get_def cacheConf_set_def)

lemma details_then_has:
  "cacheConf_has (store st) n k \<Longrightarrow> cacheConf_has (store (details_then e st)) n k"
proof -
  assume h: "cacheConf_has (store st) n k"
  obtain n' k' p where e: "e = (n', k', p)" by (cases e)
  show ?thesis using h unfolding e
    by (cases p) (auto simp: cacheConf_has_def cacheConf_set_def)
qed

lemma details_then_pending: "pending (details_then e st) = pending st"
proof -
  obtain n' k' p where e: "e = (n', k', p)" by (cases e)
  show ?thesis unfolding e by (cases p) simp_all
qed

lemma details_then_value:
  assumes "cacheConf_get (store st) n k = Some html" and "agrees n k html e"
  shows "cacheConf_get (store (details_then e st)) n k = Some html"
proof -
  obtain n' k' p where e: "e = (n', k', p)" by (cases e)
  show ?thesis using assms unfolding e
    by (cases p) (auto simp: cacheConf_get_def cacheConf_set_def agrees_def)
qed

text \<open>The invariant: the entry holds the content, and no pending promise can change it.\<close>

lemma step_keeps_entry:
  assumes "cacheConf_get (store st) n k = Some html"
    and "list_all (agrees n k html) (pending st)"
  shows "cacheConf_get (store (step b s st e)) n k = Some html
       \<and> list_all (agrees n k html) (pending (step b s st e))"
proof (cases e)
  case (Request item r)
  have st: "store (handleItemDetailsRequest b s r item st) = store st"
    by (rule handleItemDetailsRequest_store)
  have "list_all (agrees n k html) (pending (handleItemDetailsRequest b s r item st))"
  proof (cases "cacheConf_get (store st) (configName_of b item) (s item)")
    case (Some v)
    have "agrees n k html (configName_of b item, s item, Fulfilled v)"
      using Some assms(1) by (auto simp: agrees_def)
    with assms(2) show ?thesis by (simp add: handleItemDetailsRequest_hit[where s = s and item = item and b = b, OF Some])
  next
    case None
    with assms(1) have ne: "configName_of b item \<noteq> n \<or> s item \<noteq> k" by auto
    show ?thesis
    proof (cases r)
      case Throws
      with None assms(2) show ?thesis
        by (simp add: handleItemDetailsRequest_def configName_of_def cacheConf_has_def
            cacheConf_get_def)
    next
      case (Returns p)
      have "agrees n k html (configName_of b item, s item, p)"
        using ne by (cases p) (auto simp: agrees_def)
      with Returns None assms(2) show ?thesis
        by (simp add: handleItemDetailsRequest_def configName_of_def cacheConf_has_def
            cacheConf_get_def)
    qed
  qed
  with st assms(1) Request show ?thesis by simp
next
  case (Settle i)
  show ?thesis
  proof (cases "i < length (pending st)")
    case False
    with Settle assms show ?thesis by simp
  next
    case True
    let ?st = "st\<lparr>pending := take i (pending st) @ drop (Suc i) (pending st)\<rparr>"
    from True assms(2) have a: "agrees n k html (pending st ! i)"
      by (simp add: list_all_length)
    have g: "cacheConf_get (store ?st) n k = Some html" using assms(1) by simp
    have p: "list_all (agrees n k html) (pending ?st)"
      using assms(2) by (auto simp: list_all_iff dest: in_set_takeD in_set_dropD)
    from details_then_value[OF g a] p True Settle show ?thesis
      by (simp add: details_then_pending)
  qed
qed

lemma run_keeps_entry:
  assumes "cacheConf_get (store st) n k = Some html"
    and "list_all (agrees n k html) (pending st)"
  shows "cacheConf_get (store (run b s st events)) n k = Some html"
  using assms
proof (induction events arbitrary: st)
  case Nil then show ?case by (simp add: run_def)
next
  case (Cons e events)
  from step_keeps_entry[OF Cons.prems, of b s e]
  have "cacheConf_get (store (run b s (step b s st e) events)) n k = Some html"
    by (intro Cons.IH) simp_all
  then show ?case by (simp add: run_def)
qed

lemma step_keeps_has:
  "cacheConf_has (store st) n k \<Longrightarrow> cacheConf_has (store (step b s st e)) n k"
  by (cases e) (simp_all add: handleItemDetailsRequest_store details_then_has)

lemma run_keeps_has:
  "cacheConf_has (store st) n k \<Longrightarrow> cacheConf_has (store (run b s st events)) n k"
proof (induction events arbitrary: st)
  case Nil then show ?case by (simp add: run_def)
next
  case (Cons e events)
  from step_keeps_has[OF Cons.prems, of b s e]
  have "cacheConf_has (store (run b s (step b s st e) events)) n k" by (rule Cons.IH)
  then show ?case by (simp add: run_def)
qed

text \<open>
  Claim C6 (cached details are not fetched again): once the promise of a request for
  an item has been fulfilled with content and its callback has stored it, then after
  any further requests and settlements a request for the same item finds an entry and
  does not call the plugin's detail entry point (it adds no effect); its promise is
  the entry it finds, already fulfilled, and when the callback of that promise runs,
  the entry is sent as the response. That entry is the stored content itself when no
  promise that was pending at the time of the store carries other content for the
  same key.
\<close>

theorem cached_detail_not_reinvoked:
  fixes b :: "string \<Rightarrow> string" and s :: "item \<Rightarrow> string"
  assumes "n < length (pending st0)"
    and "pending st0 ! n = (configName_of b item, s item, Fulfilled html)"
  shows "\<exists>v. cacheConf_get (store (run b s (step b s st0 (Settle n)) events))
                (configName_of b item) (s item) = Some v
           \<and> effects (handleItemDetailsRequest b s retrieved item
                        (run b s (step b s st0 (Settle n)) events))
               = effects (run b s (step b s st0 (Settle n)) events)
           \<and> pending (handleItemDetailsRequest b s retrieved item
                        (run b s (step b s st0 (Settle n)) events))
               = pending (run b s (step b s st0 (Settle n)) events)
                   @ [(configName_of b item, s item, Fulfilled v)]
           \<and> effects (step b s
                        (handleItemDetailsRequest b s retrieved item
                           (run b s (step b s st0 (Settle n)) events))
                        (Settle (length (pending (run b s (step b s st0 (Settle n)) events)))))
               = effects (run b s (step b s st0 (Settle n)) events)
                   @ [CacheSet (configName_of b item) (s item) v, Send v]
           \<and> (list_all (agrees (configName_of b item) (s item) html) (pending st0)
                \<longrightarrow> v = html)"
proof -
  let ?n = "configName_of b item" and ?k = "s item"
  let ?st0' = "st0\<lparr>pending := take n (pending st0) @ drop (Suc n) (pending st0)\<rparr>"
  let ?st1 = "step b s st0 (Settle n)"
  let ?st' = "run b s ?st1 events"
  have st1: "?st1 = details_then (?n, ?k, Fulfilled html) ?st0'"
    using assms by simp
  have g1: "cacheConf_get (store ?st1) ?n ?k = Some html"
    unfolding st1 by (rule details_then_fulfilled(2))
  then have "cacheConf_has (store ?st1) ?n ?k"
    by (simp add: cacheConf_has_def cacheConf_get_def)
  then have "cacheConf_has (store ?st') ?n ?k" by (rule run_keeps_has)
  then obtain v where v: "cacheConf_get (store ?st') ?n ?k = Some v"
    by (auto simp: cacheConf_has_def cacheConf_get_def)
  have hit: "handleItemDetailsRequest b s retrieved item ?st'
               = ?st'\<lparr>pending := pending ?st' @ [(?n, ?k, Fulfilled v)]\<rparr>"
    by (rule handleItemDetailsRequest_hit[where s = s and item = item and b = b, OF v])
  have same: "v = html" if a: "list_all (agrees ?n ?k html) (pending st0)"
  proof -
    from a have "list_all (agrees ?n ?k html) (pending ?st0')"
      by (auto simp: list_all_iff dest: in_set_takeD in_set_dropD)
    then have "list_all (agrees ?n ?k html) (pending ?st1)"
      unfolding st1 by (simp add: details_then_pending)
    from run_keeps_entry[OF g1 this, of b s events] v show ?thesis by simp
  qed
  have sent: "effects (step b s (handleItemDetailsRequest b s retrieved item ?st')
                         (Settle (length (pending ?st'))))
                = effects ?st' @ [CacheSet ?n ?k v, Send v]"
    unfolding hit by (simp add: details_then_fulfilled(1))
  from v hit sent same show ?thesis by simp
qed

theorem cached_detail_not_reinvoked_witness:
  "pending requested_state ! 0
     = (configName_of sample_basename calc_item, sample_stringify calc_item, Fulfilled ''<p>4</p>'')
   \<and> effects (handleItemDetailsRequest sample_basename sample_stringify
                (Returns (Fulfilled ''<p>5</p>'')) calc_item
                (run sample_basename sample_stringify cached_state
                   [Request other_item (Returns (Fulfilled ''<p>9</p>'')), Settle 0]))
       = effects (run sample_basename sample_stringify cached_state
                   [Request other_item (Returns (Fulfilled ''<p>9</p>'')), Settle 0])
   \<and> pending (handleItemDetailsRequest sample_basename sample_stringify
                (Returns (Fulfilled ''<p>5</p>'')) calc_item
                (run sample_basename sample_stringify cached_state
                   [Request other_item (Returns (Fulfilled ''<p>9</p>'')), Settle 0]))
       = [(configName_of sample_basename calc_item, sample_stringify calc_item,
           Fulfilled ''<p>4</p>'')]
   \<and> effects (step sample_basename sample_stringify
                (handleItemDetailsRequest sample_basename sample_stringify
                   (Returns (Fulfilled ''<p>5</p>'')) calc_item
                   (run sample_basename sample_stringify cached_state
                      [Request other_item (Returns (Fulfilled ''<p>9</p>'')), Settle 0]))
                (Settle 0))
       = effects (run sample_basename sample_stringify cached_state
                   [Request other_item (Returns (Fulfilled ''<p>9</p>'')), Settle 0])
           @ [CacheSet (configName_of sample_basename calc_item) (sample_stringify calc_item)
                ''<p>4</p>'',
              Send ''<p>4</p>'']"
proof -
  have l: "0 < length (pending requested_state)" by code_simp
  have p: "pending requested_state ! 0
     = (configName_of sample_basename calc_item, sample_stringify calc_item, Fulfilled ''<p>4</p>'')"
    by code_simp
  have a: "list_all (agrees (configName_of sample_basename calc_item) (sample_stringify calc_item)
             ''<p>4</p>'') (pending requested_state)"
    by code_simp
  have e: "pending (run sample_basename sample_stringify cached_state
                   [Request other_item (Returns (Fulfilled ''<p>9</p>'')), Settle 0]) = []"
    by code_simp
  from cached_detail_not_reinvoked[where b = sample_basename and s = sample_stringify
      and item = calc_item, OF l p,
      of "[Request other_item (Returns (Fulfilled ''<p>9</p>'')), Settle 0]"
         "Returns (Fulfilled ''<p>5</p>'')"] a p e
  show ?thesis by (auto simp: cached_state_def)
qed

text \<open>
  Claim C10 (the response is written to the cache first): the promise a request
  creates carries the item's namespace and serialised key, and on a cache hit the
  entry just read. When it settles with content, the callback writes that content
  under that key and then sends it, so right after the send the cache maps the key
  to the content sent.
\<close>

theorem detail_response_written_to_cache:
  fixes b :: "string \<Rightarrow> string" and s :: "item \<Rightarrow> string"
  assumes "pending (handleItemDetailsRequest b s retrieved item st)
             = pending st @ [(configName, cacheKey, Fulfilled html)]"
    and "n < length (pending st2)"
    and "pending st2 ! n = (configName, cacheKey, Fulfilled html)"
  shows "configName = configName_of b item \<and> cacheKey = s item
       \<and> (cacheConf_has (store st) configName cacheKey
            \<longrightarrow> cacheConf_get (store st) configName cacheKey = Some html)
       \<and> effects (step b s st2 (Settle n))
           = effects st2 @ [CacheSet configName cacheKey html, Send html]
       \<and> cacheConf_get (store (step b s st2 (Settle n))) configName cacheKey = Some html"
proof -
  note np = handleItemDetailsRequest_new_promise[where s = s and item = item and b = b, OF assms(1)]
  have 1: "configName = configName_of b item" by (rule np(1))
  have 2: "cacheKey = s item" by (rule np(2))
  have 3: "cacheConf_get (store st) configName cacheKey = Some html"
    if "cacheConf_has (store st) configName cacheKey"
    using np(3)[OF that] by auto
  have st: "step b s st2 (Settle n)
              = details_then (configName, cacheKey, Fulfilled html)
                  (st2\<lparr>pending := take n (pending st2) @ drop (Suc n) (pending st2)\<rparr>)"
    using assms(2,3) by simp
  have 4: "effects (step b s st2 (Settle n))
             = effects st2 @ [CacheSet configName cacheKey html, Send html]"
    unfolding st by (simp add: details_then_fulfilled(1))
  have 5: "cacheConf_get (store (step b s st2 (Settle n))) configName cacheKey = Some html"
    unfolding st by (rule details_then_fulfilled(2))
  from 1 2 3 4 5 show ?thesis by blast
qed

theorem detail_response_written_to_cache_witness:
  "pending (handleItemDetailsRequest sample_basename sample_stringify Throws calc_item cached_state)
     = pending cached_state @ [(''calc-itemDetails'', ''2+2|4|/plugins/calc'', Fulfilled ''<p>4</p>'')]
   \<and> cacheConf_has (store cached_state) ''calc-itemDetails'' ''2+2|4|/plugins/calc''
   \<and> effects (step sample_basename sample_stringify
        (handleItemDetailsRequest sample_basename sample_stringify Throws calc_item cached_state)
        (Settle 0))
       = effects cached_state
           @ [CacheSet ''calc-itemDetails'' ''2+2|4|/plugins/calc'' ''<p>4</p>'', Send ''<p>4</p>'']
   \<and> cacheConf_get (store (step sample_basename sample_stringify
        (handleItemDetailsRequest sample_basename sample_stringify Throws calc_item cached_state)
        (Settle 0))) ''calc-itemDetails'' ''2+2|4|/plugins/calc'' = Some ''<p>4</p>''"
proof -
  let ?st2 = "handleItemDetailsRequest sample_basename sample_stringify Throws calc_item cached_state"
  have a: "pending ?st2
     = pending cached_state @ [(''calc-itemDetails'', ''2+2|4|/plugins/calc'', Fulfilled ''<p>4</p>'')]"
    by code_simp
  have l: "0 < length (pending ?st2)" by code_simp
  have p: "pending ?st2 ! 0 = (''calc-itemDetails'', ''2+2|4|/plugins/calc'', Fulfilled ''<p>4</p>'')"
    by code_simp
  have h: "cacheConf_has (store cached_state) ''calc-itemDetails'' ''2+2|4|/plugins/calc''"
    by code_simp
  have e: "effects ?st2 = effects cached_state" by code_simp
  note t = detail_response_written_to_cache[where b = sample_basename and s = sample_stringify
      and item = calc_item and st = cached_state and retrieved = Throws, OF a l p]
  from t have c4: "effects (step sample_basename sample_stringify ?st2 (Settle 0))
       = effects ?st2
           @ [CacheSet ''calc-itemDetails'' ''2+2|4|/plugins/calc'' ''<p>4</p>'', Send ''<p>4</p>'']"
    by blast
  from t have c5: "cacheConf_get (store (step sample_basename sample_stringify ?st2 (Settle 0)))
       ''calc-itemDetails'' ''2+2|4|/plugins/calc'' = Some ''<p>4</p>''"
    by blast
  from a h c4[unfolded e] c5 show ?thesis by blast
qed

end
